theory Spec2Isabelle
  imports Main
begin

section \<open>The scrolling text field of conky (src/scroll.c)\<close>

text \<open>
  The file embeds the two functions of \<^verbatim>\<open>scroll.c\<close> that carry behaviour:
  \<^verbatim>\<open>parse_scroll_arg\<close> (the spec's \<open>configure\<close>) and \<^verbatim>\<open>print_scroll\<close>
  (the spec's \<open>render\<close>). C strings live in arrays of bytes; an array is a
  \<open>char list\<close> holding every byte of the array, the string in it ends before the
  first terminator byte.
\<close>

subsection \<open>Bytes, errors and the field\<close>

definition NUL :: char where
  "NUL = CHR 0x00"

definition NEWLINE :: char where
  "NEWLINE = CHR 0x0A"

definition SPACE :: char where
  "SPACE = CHR '' ''"

text \<open>The separator of line 71: \<^verbatim>\<open>#define LINESEPARATOR '|'\<close>.\<close>

definition LINESEPARATOR :: char where
  "LINESEPARATOR = CHR ''|''"

text \<open>
  Modelled from the spec: the macro \<^verbatim>\<open>SPECIAL_CHAR\<close> is declared in
  \<^verbatim>\<open>specials.h\<close>, which is not among the sources. The spec fixes it only as
  ``one reserved sentinel byte value'' that marks a zero-width style change; the byte
  0x01 stands for it here. It differs from the terminator, the newline, the separator
  and the space, as any byte reserved for markers has to.
\<close>

definition SPECIAL_CHAR :: char where
  "SPECIAL_CHAR = CHR 0x01"

text \<open>
  What can go wrong. \<open>CRIT_ERR\<close> is the fatal error of \<^verbatim>\<open>parse_scroll_arg\<close>
  (the macro of \<^verbatim>\<open>logging.h\<close> prints the message and ends the program). The
  other three are not raised by the code: they stand for the places where the C
  program leaves defined behaviour, a read outside the array \<^verbatim>\<open>buf\<close>, writes past
  the end of the block \<^verbatim>\<open>pwithcolors\<close>, and the overflow of the \<^verbatim>\<open>int\<close> counter
  of line 51.
\<close>

datatype error = CRIT_ERR string | OutOfBounds | HeapOverflow | IntOverflow

text \<open>
  The members of \<^verbatim>\<open>obj->data.scroll\<close> that the two functions use. The struct is
  declared in \<^verbatim>\<open>text_object.h\<close>, which is not among the sources: \<^verbatim>\<open>show\<close> and
  \<^verbatim>\<open>step\<close> are read with \<^verbatim>\<open>%u\<close>, so they are \<^verbatim>\<open>unsigned int\<close>, and
  \<^verbatim>\<open>start\<close>, compared and added to them, is taken to be one too; \<^verbatim>\<open>text\<close> is
  the template string, \<^verbatim>\<open>resetcolor\<close> the colour that \<^verbatim>\<open>new_fg\<close> receives. The
  names carry a prefix because \<open>show\<close> and \<open>text\<close> are reserved words.
\<close>

record scroll =
  scroll_text :: string
  scroll_show :: nat
  scroll_step :: nat
  scroll_start :: nat
  scroll_resetcolor :: int

subsection \<open>The C library functions used\<close>

text \<open>The string held by an array: the bytes before the first terminator.\<close>

definition cstring :: "char list \<Rightarrow> char list" where
  "cstring buf = takeWhile (\<lambda>c. c \<noteq> NUL) buf"

text \<open>\<^verbatim>\<open>strlen\<close>: the length of that string.\<close>

definition strlen :: "char list \<Rightarrow> nat" where
  "strlen s = length (cstring s)"

text \<open>
  \<^verbatim>\<open>snprintf(p, n, "%s", s)\<close>: the bytes stored at \<open>p\<close>. Nothing is stored for
  \<open>n = 0\<close>; otherwise at most \<open>n - 1\<close> bytes of the string and a terminator. The
  size is a natural number: a caller announces no negative capacity.
\<close>

definition snprintf_s :: "nat \<Rightarrow> char list \<Rightarrow> char list" where
  "snprintf_s n s =
     (if n = 0 then [] else take (n - 1) (cstring s) @ [NUL])"

subsection \<open>print\_scroll\<close>

text \<open>
  Lines 68 to 78: the loop walks \<^verbatim>\<open>buf\<close> up to the terminator, overwrites every
  newline by the separator and counts the markers. \<^verbatim>\<open>generate_text_internal\<close>
  has filled the array before; an array without terminator makes the loop leave it.
\<close>

function scan_loop :: "char list \<Rightarrow> nat \<Rightarrow> nat \<Rightarrow> error + (char list \<times> nat)" where
  "scan_loop buf j colorchanges =
     (if j < length buf then
        (if buf ! j = NUL then Inr (buf, colorchanges)
         else if buf ! j = NEWLINE then
           scan_loop (buf[j := LINESEPARATOR]) (j + 1) colorchanges
         else if buf ! j = SPECIAL_CHAR then
           scan_loop buf (j + 1) (colorchanges + 1)
         else scan_loop buf (j + 1) colorchanges)
      else Inl OutOfBounds)"
  by pat_completeness auto
termination
  by (relation "measure (\<lambda>(buf, j, c). length buf - j)") auto

text \<open>Lines 85 to 87: \<^verbatim>\<open>while (buf[start] == SPECIAL_CHAR) start++;\<close>\<close>

function skip_loop :: "char list \<Rightarrow> nat \<Rightarrow> error + nat" where
  "skip_loop buf start =
     (if start < length buf then
        (if buf ! start = SPECIAL_CHAR then skip_loop buf (start + 1) else Inr start)
      else Inl OutOfBounds)"
  by pat_completeness auto
termination
  by (relation "measure (\<lambda>(buf, start). length buf - start)") auto

text \<open>
  Lines 89 to 96: the loop that fills \<^verbatim>\<open>p\<close>. It ends in one of two ways: the
  \<^verbatim>\<open>return\<close> of line 95, taken as soon as the terminator has been copied, or the
  loop condition. \<open>p\<close> holds the bytes \<^verbatim>\<open>p[0..j-1]\<close> stored so far.
\<close>

datatype window = Returned "char list" | Filled "char list" nat nat

function fill_loop ::
  "char list \<Rightarrow> nat \<Rightarrow> nat \<Rightarrow> nat \<Rightarrow> nat \<Rightarrow> char list \<Rightarrow> error + window" where
  "fill_loop buf start shw j visibcolorchanges p =
     (if j < shw + visibcolorchanges then
        (if start + j < length buf then
           (if buf ! (start + j) = NUL then Inr (Returned (p @ [buf ! (start + j)]))
            else fill_loop buf start shw (j + 1)
                   (if buf ! (start + j) = SPECIAL_CHAR
                    then visibcolorchanges + 1 else visibcolorchanges)
                   (p @ [buf ! (start + j)]))
         else Inl OutOfBounds)
      else Inr (Filled p j visibcolorchanges))"
  by pat_completeness auto
termination
  by (relation "measure (\<lambda>(buf, start, shw, j, v, p). length buf - (start + j))") auto

text \<open>Lines 97 to 99: the rest of the window is filled with spaces.\<close>

definition pad_loop :: "nat \<Rightarrow> nat \<Rightarrow> char list \<Rightarrow> char list" where
  "pad_loop j bound p = p @ replicate (bound - j) SPACE"

text \<open>Lines 102 to 104: the markers in \<^verbatim>\<open>buf[0..start-1]\<close>.\<close>

definition count_front :: "char list \<Rightarrow> nat \<Rightarrow> nat" where
  "count_front buf start = length (filter (\<lambda>c. c = SPECIAL_CHAR) (take start buf))"

text \<open>
  The whole function. \<open>buf0\<close> is the array \<^verbatim>\<open>buf\<close> as
  \<^verbatim>\<open>generate_text_internal\<close> leaves it (line 67), \<open>p_max_size\<close> the capacity the
  caller announces for \<^verbatim>\<open>p\<close>, and \<open>new_fg\<close> the bytes that the call of line 126
  stores at the end of the string (none in a build without X11). The result is the
  sequence of bytes stored at \<^verbatim>\<open>p\<close>, terminator included, and the field after the
  call.

  Only line 81 looks at \<open>p_max_size\<close>: the other stores to \<^verbatim>\<open>p\<close> are not bounded,
  and the result lists them all. The block \<^verbatim>\<open>pwithcolors\<close> has
  \<^verbatim>\<open>strlen(p) + 1 + colorchanges - visibcolorchanges\<close> bytes; when the markers in
  front of the window and inside it are more than \<^verbatim>\<open>colorchanges\<close>, the unsigned
  count of line 113 wraps around and the stores run past the block. The addition of
  line 120 is an addition of \<^verbatim>\<open>unsigned int\<close>; the other counters stay below the
  size of \<^verbatim>\<open>buf\<close>.
\<close>

definition print_scroll ::
  "char list \<Rightarrow> scroll \<Rightarrow> char list \<Rightarrow> nat \<Rightarrow> error + (char list \<times> scroll)" where
  "print_scroll new_fg obj buf0 p_max_size =
     (case scan_loop buf0 0 0 of
        Inl e \<Rightarrow> Inl e
      | Inr (buf, colorchanges) \<Rightarrow>
          if strlen buf - colorchanges \<le> scroll_show obj
          then Inr (snprintf_s p_max_size buf, obj)
          else
            (case skip_loop buf (scroll_start obj) of
               Inl e \<Rightarrow> Inl e
             | Inr start \<Rightarrow>
                 (case fill_loop buf start (scroll_show obj) 0 0 [] of
                    Inl e \<Rightarrow> Inl e
                  | Inr (Returned p) \<Rightarrow> Inr (p, obj\<lparr>scroll_start := start\<rparr>)
                  | Inr (Filled p0 j visibcolorchanges) \<Rightarrow>
                      let p = pad_loop j (scroll_show obj + visibcolorchanges) p0;
                          frontcolorchanges = count_front buf start
                      in if colorchanges < frontcolorchanges + visibcolorchanges
                         then Inl HeapOverflow
                         else
                           let pwithcolors =
                                 replicate frontcolorchanges SPECIAL_CHAR @ p @
                                 replicate
                                   (colorchanges - frontcolorchanges - visibcolorchanges)
                                   SPECIAL_CHAR;
                               start' = (start + scroll_step obj) mod 2 ^ 32
                           in if start' < length buf
                              then Inr (pwithcolors @ new_fg @ [NUL],
                                        obj\<lparr>scroll_start :=
                                              (if buf ! start' = NUL then 0 else start')\<rparr>)
                              else Inl OutOfBounds)))"

text \<open>
  Repeated calls on the same array, as the host's refresh loop makes them while the
  text does not change: \<open>render_calls k\<close> is the result of call number \<open>k + 1\<close>,
  each call starting from the field the one before has left.
\<close>

fun render_calls ::
  "nat \<Rightarrow> char list \<Rightarrow> scroll \<Rightarrow> char list \<Rightarrow> nat \<Rightarrow> error + (char list \<times> scroll)" where
  "render_calls 0 new_fg obj buf0 p_max_size = print_scroll new_fg obj buf0 p_max_size"
| "render_calls (Suc k) new_fg obj buf0 p_max_size =
     (case print_scroll new_fg obj buf0 p_max_size of
        Inl e \<Rightarrow> Inl e
      | Inr (p, obj') \<Rightarrow> render_calls k new_fg obj' buf0 p_max_size)"

subsection \<open>parse\_scroll\_arg\<close>

text \<open>
  The C library's \<^verbatim>\<open>sscanf(s, "%u %n", &u, &n)\<close>. What is read follows the C
  standard: \<^verbatim>\<open>%u\<close> skips white space and reads an optionally signed run of
  decimal digits, the blank in the format skips white space, \<^verbatim>\<open>%n\<close> stores the
  number of bytes read so far. The result is \<open>None\<close> when the call returns 0 or
  \<^verbatim>\<open>EOF\<close> (no digit found; nothing is stored), else the value stored in \<open>u\<close>
  and the count stored in \<open>n\<close>.

  For a number that does not fit an \<^verbatim>\<open>unsigned int\<close> the standard leaves the
  stored value open. The model stores what the GNU C library stores where
  \<^verbatim>\<open>unsigned long\<close> has 64 bits: it converts the digits with \<^verbatim>\<open>strtoul\<close>,
  whose result is \<open>2\<^sup>6\<^sup>4 - 1\<close> for every run of digits from \<open>2\<^sup>6\<^sup>4\<close> on, with
  or without sign, and otherwise the number, negated modulo \<open>2\<^sup>6\<^sup>4\<close> behind a minus
  sign; the low 32 bits of that result are stored.
\<close>

definition isspace :: "char \<Rightarrow> bool" where
  "isspace c =
     (c = SPACE \<or> c = CHR 0x09 \<or> c = NEWLINE \<or> c = CHR 0x0B \<or> c = CHR 0x0C \<or> c = CHR 0x0D)"

definition isdigit :: "char \<Rightarrow> bool" where
  "isdigit c = (c \<in> set ''0123456789'')"

definition digit_value :: "char \<Rightarrow> nat" where
  "digit_value c = of_char c - 48"

definition decimal :: "char list \<Rightarrow> nat" where
  "decimal ds = foldl (\<lambda>v c. 10 * v + digit_value c) 0 ds"

definition strtoul_value :: "bool \<Rightarrow> char list \<Rightarrow> nat" where
  "strtoul_value negative digits =
     (if 2 ^ 64 \<le> decimal digits then 2 ^ 64 - 1
      else if negative then (2 ^ 64 - decimal digits) mod 2 ^ 64
      else decimal digits)"

definition sscanf_u_n :: "char list \<Rightarrow> (nat \<times> nat) option" where
  "sscanf_u_n s =
     (let blanks = takeWhile isspace s;
          s1 = dropWhile isspace s;
          signed = (s1 \<noteq> [] \<and> (hd s1 = CHR ''-'' \<or> hd s1 = CHR ''+''));
          s2 = (if signed then tl s1 else s1);
          digits = takeWhile isdigit s2;
          s3 = dropWhile isdigit s2
      in if digits = [] then None
         else Some
           (strtoul_value (signed \<and> hd s1 = CHR ''-'') digits mod 2 ^ 32,
            length blanks + (if signed then 1 else 0) + length digits +
            length (takeWhile isspace s3)))"

text \<open>
  Lines 35 to 59. \<open>arg\<close> is \<open>None\<close> for the null pointer, else the bytes at
  \<^verbatim>\<open>arg\<close>; \<open>current_text_color\<close> is what \<^verbatim>\<open>get_current_text_color()\<close>
  returns. The second \<^verbatim>\<open>sscanf\<close> stores into \<^verbatim>\<open>step\<close> and \<open>n2\<close> only when
  it finds a number; line 45 reads the byte after what both calls have consumed, the
  terminator when nothing is left. The counter \<open>n2\<close> of the loop of line 51 is an
  \<^verbatim>\<open>int\<close>: it cannot count up to a \<^verbatim>\<open>show\<close> above \<^verbatim>\<open>INT_MAX\<close>. The nested
  text object of lines 57 and 58 is built from \<^verbatim>\<open>text\<close> by
  \<^verbatim>\<open>extract_variable_text_internal\<close>, outside this file.
\<close>

definition scroll_needs_arguments :: string where
  "scroll_needs_arguments = ''scroll needs arguments: <length> [<step>] <text>''"

definition parse_scroll_arg :: "int \<Rightarrow> char list option \<Rightarrow> error + scroll" where
  "parse_scroll_arg current_text_color arg =
     (case arg of
        None \<Rightarrow> Inl (CRIT_ERR scroll_needs_arguments)
      | Some a \<Rightarrow>
          (case sscanf_u_n a of
             None \<Rightarrow> Inl (CRIT_ERR scroll_needs_arguments)
           | Some (shw, n1) \<Rightarrow>
               let (stp, n2) =
                     (case sscanf_u_n (drop n1 a) of None \<Rightarrow> (1, 0) | Some r \<Rightarrow> r);
                   more = (n1 + n2 < length a \<and> a ! (n1 + n2) \<noteq> NUL);
                   n1' = (if more then n1 + n2 else n1);
                   stp' = (if more then stp else 1)
               in if 2 ^ 31 \<le> shw then Inl IntOverflow
                  else Inr \<lparr>scroll_text = replicate shw SPACE @ cstring (drop n1' a),
                            scroll_show = shw,
                            scroll_step = stp',
                            scroll_start = 0,
                            scroll_resetcolor = current_text_color\<rparr>))"

subsection \<open>The vocabulary of the specification\<close>

text \<open>
  Markers and printable (non-marker) bytes of a string, the replacement of line 72,
  and the array after the loop of lines 68 to 78 (the spec's evaluated text, followed
  by whatever the array holds behind the terminator).
\<close>

definition markers :: "char list \<Rightarrow> nat" where
  "markers s = length (filter (\<lambda>c. c = SPECIAL_CHAR) s)"

definition printable :: "char list \<Rightarrow> nat" where
  "printable s = length (filter (\<lambda>c. c \<noteq> SPECIAL_CHAR) s)"

definition separate :: "char \<Rightarrow> char" where
  "separate c = (if c = NEWLINE then LINESEPARATOR else c)"

definition evaluated :: "char list \<Rightarrow> char list" where
  "evaluated buf0 = map separate (cstring buf0) @ dropWhile (\<lambda>c. c \<noteq> NUL) buf0"

text \<open>
  The spec's words for the argument of \<open>configure\<close>: the first token delimited by
  white space, and a token that is a non-negative integer (a non-empty run of digits).
\<close>

definition first_token :: "char list \<Rightarrow> char list" where
  "first_token s = takeWhile (\<lambda>c. \<not> isspace c) (dropWhile isspace (cstring s))"

definition nonneg_integer_token :: "char list \<Rightarrow> bool" where
  "nonneg_integer_token t = (t \<noteq> [] \<and> list_all isdigit t)"

text \<open>
  What \<^verbatim>\<open>%u\<close> asks of the argument instead: after white space and at most one
  sign, a digit.
\<close>

definition numeric_prefix :: "char list \<Rightarrow> bool" where
  "numeric_prefix s =
     (case dropWhile isspace s of
        [] \<Rightarrow> False
      | c # cs \<Rightarrow>
          if c = CHR ''-'' \<or> c = CHR ''+''
          then (case cs of [] \<Rightarrow> False | d # ds \<Rightarrow> isdigit d)
          else isdigit c)"

text \<open>The fields used in the examples: width, step and cursor.\<close>

definition field :: "nat \<Rightarrow> nat \<Rightarrow> nat \<Rightarrow> scroll" where
  "field w s c =
     \<lparr>scroll_text = [], scroll_show = w, scroll_step = s, scroll_start = c,
      scroll_resetcolor = 0\<rparr>"

section \<open>Properties\<close>

subsection \<open>Scanning, skipping and filling\<close>

text \<open>The five bytes the code names are different bytes.\<close>

lemma bytes_distinct [simp]:
  "NUL \<noteq> NEWLINE" "NUL \<noteq> SPACE" "NUL \<noteq> LINESEPARATOR"
  "NUL \<noteq> SPECIAL_CHAR" "NEWLINE \<noteq> NUL" "NEWLINE \<noteq> SPACE"
  "NEWLINE \<noteq> LINESEPARATOR" "NEWLINE \<noteq> SPECIAL_CHAR" "SPACE \<noteq> NUL"
  "SPACE \<noteq> NEWLINE" "SPACE \<noteq> LINESEPARATOR" "SPACE \<noteq> SPECIAL_CHAR"
  "LINESEPARATOR \<noteq> NUL" "LINESEPARATOR \<noteq> NEWLINE" "LINESEPARATOR \<noteq> SPACE"
  "LINESEPARATOR \<noteq> SPECIAL_CHAR" "SPECIAL_CHAR \<noteq> NUL" "SPECIAL_CHAR \<noteq> NEWLINE"
  "SPECIAL_CHAR \<noteq> SPACE" "SPECIAL_CHAR \<noteq> LINESEPARATOR"
  by (simp_all add: SPECIAL_CHAR_def NUL_def NEWLINE_def LINESEPARATOR_def SPACE_def)

text \<open>
  Each loop is unfolded one step at a time, where a proof asks for it.
\<close>

declare scan_loop.simps [simp del] skip_loop.simps [simp del] fill_loop.simps [simp del]

lemma scan_loop_no_terminator:
  "NUL \<notin> set (drop j buf) \<Longrightarrow> scan_loop buf j cc = Inl OutOfBounds"
proof (induction buf j cc rule: scan_loop.induct)
  case (1 buf j cc)
  show ?case
  proof (cases "j < length buf")
    case False
    then show ?thesis by (subst scan_loop.simps) simp
  next
    case True
    then have d: "drop j buf = buf ! j # drop (Suc j) buf"
      by (simp add: Cons_nth_drop_Suc)
    with "1.prems" have n: "buf ! j \<noteq> NUL" "NUL \<notin> set (drop (Suc j) buf)"
      by auto
    have n': "NUL \<notin> set (drop (Suc j) (buf[j := LINESEPARATOR]))"
      using n by simp
    show ?thesis
      using True n n' "1.IH" by (subst scan_loop.simps) simp
  qed
qed

lemma scan_loop_terminated:
  "NUL \<in> set (drop j buf) \<Longrightarrow>
   scan_loop buf j cc =
     Inr (take j buf @ map separate (cstring (drop j buf)) @
            dropWhile (\<lambda>c. c \<noteq> NUL) (drop j buf),
          cc + markers (cstring (drop j buf)))"
proof (induction buf j cc rule: scan_loop.induct)
  case (1 buf j cc)
  from "1.prems" have lt: "j < length buf"
    by (cases "j < length buf") auto
  then have d: "drop j buf = buf ! j # drop (Suc j) buf"
    by (simp add: Cons_nth_drop_Suc)
  show ?case
  proof (cases "buf ! j = NUL")
    case True
    then show ?thesis
      using lt d id_take_nth_drop [OF lt]
      by (subst scan_loop.simps) (simp add: cstring_def markers_def)
  next
    case False
    with "1.prems" d have rest: "NUL \<in> set (drop (Suc j) buf)"
      by auto
    have t: "take (Suc j) buf = take j buf @ [buf ! j]"
      using lt by (simp add: take_Suc_conv_app_nth)
    show ?thesis
    proof (cases "buf ! j = NEWLINE")
      case True
      have "scan_loop buf j cc = scan_loop (buf[j := LINESEPARATOR]) (j + 1) cc"
        using lt True by (subst scan_loop.simps) simp
      also have "\<dots> = Inr (take (j + 1) (buf[j := LINESEPARATOR]) @
            map separate (cstring (drop (j + 1) (buf[j := LINESEPARATOR]))) @
            dropWhile (\<lambda>c. c \<noteq> NUL) (drop (j + 1) (buf[j := LINESEPARATOR])),
          cc + markers (cstring (drop (j + 1) (buf[j := LINESEPARATOR]))))"
        using lt False True rest by (intro "1.IH"(1)) simp_all
      finally show ?thesis
        using lt True d by (simp add: cstring_def markers_def separate_def take_Suc_conv_app_nth)
    next
      case nl: False
      show ?thesis
      proof (cases "buf ! j = SPECIAL_CHAR")
        case True
        have "scan_loop buf j cc = scan_loop buf (j + 1) (cc + 1)"
          using lt True by (subst scan_loop.simps) simp
        also have "\<dots> = Inr (take (j + 1) buf @ map separate (cstring (drop (j + 1) buf)) @
            dropWhile (\<lambda>c. c \<noteq> NUL) (drop (j + 1) buf),
          cc + 1 + markers (cstring (drop (j + 1) buf)))"
          using lt False nl True rest by (intro "1.IH"(2)) simp_all
        finally show ?thesis
          using lt True d t by (simp add: cstring_def markers_def separate_def)
      next
        case sp: False
        have "scan_loop buf j cc = scan_loop buf (j + 1) cc"
          using lt False nl sp by (subst scan_loop.simps) simp
        also have "\<dots> = Inr (take (j + 1) buf @ map separate (cstring (drop (j + 1) buf)) @
            dropWhile (\<lambda>c. c \<noteq> NUL) (drop (j + 1) buf),
          cc + markers (cstring (drop (j + 1) buf)))"
          using lt False nl sp rest by (intro "1.IH"(3)) simp_all
        finally show ?thesis
          using lt False nl sp d t by (simp add: cstring_def markers_def separate_def)
      qed
    qed
  qed
qed

lemma scan_loop_evaluated:
  "NUL \<in> set buf0 \<Longrightarrow> scan_loop buf0 0 0 = Inr (evaluated buf0, markers (cstring buf0))"
  using scan_loop_terminated [of 0 buf0 0] by (simp add: evaluated_def)


lemma drop_eq_Cons:
  "drop n xs = y # ys \<Longrightarrow> n < length xs \<and> xs ! n = y \<and> drop (Suc n) xs = ys"
proof -
  assume a: "drop n xs = y # ys"
  then have lt: "n < length xs"
    by (cases "n < length xs") auto
  with a show ?thesis
    using Cons_nth_drop_Suc [OF lt] by simp
qed

lemma cstring_evaluated: "cstring (evaluated buf0) = map separate (cstring buf0)"
  by (induction buf0) (auto simp: cstring_def evaluated_def separate_def)

lemma strlen_evaluated: "strlen (evaluated buf0) = length (cstring buf0)"
  by (simp add: strlen_def cstring_evaluated)

text \<open>
  The window loop takes the \<^verbatim>\<open>return\<close> of line 95 when fewer printable bytes
  than it still has to collect stand between its position and the terminator.
\<close>

lemma fill_loop_returned:
  "drop (start + j) buf = seg @ NUL # rest \<Longrightarrow> NUL \<notin> set seg \<Longrightarrow>
   printable seg + j < shw + v \<Longrightarrow>
   fill_loop buf start shw j v p = Inr (Returned (p @ seg @ [NUL]))"
proof (induction seg arbitrary: j v p)
  case Nil
  then have "start + j < length buf" "buf ! (start + j) = NUL"
    using drop_eq_Cons [of "start + j" buf NUL rest] by simp_all
  with Nil show ?case
    by (subst fill_loop.simps) simp
next
  case (Cons c seg)
  from Cons.prems(1) have d: "start + j < length buf" "buf ! (start + j) = c"
    "drop (start + (j + 1)) buf = seg @ NUL # rest"
    using drop_eq_Cons [of "start + j" buf c "seg @ NUL # rest"] by simp_all
  from Cons.prems(2) have c: "c \<noteq> NUL" "NUL \<notin> set seg"
    by auto
  from Cons.prems(3) have j: "j < shw + v"
    by simp
  have "fill_loop buf start shw (j + 1) (if c = SPECIAL_CHAR then v + 1 else v) (p @ [c])
        = Inr (Returned ((p @ [c]) @ seg @ [NUL]))"
    using Cons.prems(3) by (intro Cons.IH d c) (auto simp: printable_def)
  then show ?case
    using d c j by (subst fill_loop.simps) simp
qed

subsection \<open>The short text (C3)\<close>

text \<open>
  C3, as the claim states it, fails where the text does not fit the caller's buffer:
  with \<open>visible_width = 10\<close>, the text \<open>hi\<close> and a capacity of 2 bytes, line 81
  stores \<open>h\<close> and the terminator, not the entire text.
\<close>

theorem short_text_cut_counterexample:
  "length (cstring (''hi'' @ [NUL])) - markers (cstring (''hi'' @ [NUL]))
     \<le> scroll_show (field 10 1 0) \<and>
   print_scroll [] (field 10 1 0) (''hi'' @ [NUL]) 2 = Inr (''h'' @ [NUL], field 10 1 0) \<and>
   print_scroll [] (field 10 1 0) (''hi'' @ [NUL]) 2 \<noteq> Inr (''hi'' @ [NUL], field 10 1 0)"
  by (simp add: print_scroll_def field_def cstring_def markers_def strlen_def snprintf_s_def
      scan_loop.simps NUL_def NEWLINE_def SPECIAL_CHAR_def)

text \<open>
  C3 (amended): for every render where the printable length of the evaluated text
  (its length minus its markers) is at most \<open>visible_width\<close>, render stores the text,
  newlines replaced by the separator, cut to at most \<open>output_capacity - 1\<close> bytes and
  followed by the terminator (nothing at all for a capacity of 0; the entire text
  when it is shorter than the capacity), and returns the field unchanged, cursor
  included.
\<close>

theorem short_text_copied_within_capacity:
  assumes "NUL \<in> set buf0"
    and "length (cstring buf0) - markers (cstring buf0) \<le> scroll_show obj"
  shows "print_scroll new_fg obj buf0 p_max_size =
           Inr (if p_max_size = 0 then []
                else take (p_max_size - 1) (map separate (cstring buf0)) @ [NUL],
                obj)"
proof -
  have "snprintf_s p_max_size (evaluated buf0) =
          (if p_max_size = 0 then []
           else take (p_max_size - 1) (map separate (cstring buf0)) @ [NUL])"
    by (simp add: snprintf_s_def cstring_evaluated)
  then show ?thesis
    using assms by (simp add: print_scroll_def scan_loop_evaluated strlen_evaluated)
qed

theorem short_text_copied_within_capacity_witness:
  "NUL \<in> set (''hi'' @ [NUL]) \<and>
   length (cstring (''hi'' @ [NUL])) - markers (cstring (''hi'' @ [NUL]))
     \<le> scroll_show (field 10 1 0) \<and>
   print_scroll [] (field 10 1 0) (''hi'' @ [NUL]) 100 = Inr (''hi'' @ [NUL], field 10 1 0)"
  using short_text_copied_within_capacity [of "''hi'' @ [NUL]" "field 10 1 0" "[]" 100]
  by (simp add: field_def cstring_def markers_def separate_def NUL_def NEWLINE_def
      SPECIAL_CHAR_def)

subsection \<open>The terminator inside the window (C10)\<close>

text \<open>
  C10: on the scrolling path (printable length above \<open>visible_width\<close>), let \<open>start\<close>
  be the cursor after the markers at the cursor have been skipped. When the bytes
  \<open>seg\<close> between \<open>start\<close> and the next terminator hold fewer than \<open>visible_width\<close>
  printable bytes, render returns at once: the output is \<open>seg\<close> and the terminator,
  nothing else (no padding, no marker in front or behind, no style-reset bytes),
  and the cursor stays at \<open>start\<close>, not advanced by \<open>step\<close>.
\<close>

theorem terminator_in_window_returns_at_once:
  assumes "NUL \<in> set buf0"
    and "scroll_show obj < length (cstring buf0) - markers (cstring buf0)"
    and "skip_loop (evaluated buf0) (scroll_start obj) = Inr start"
    and "drop start (evaluated buf0) = seg @ NUL # rest"
    and "NUL \<notin> set seg"
    and "printable seg < scroll_show obj"
  shows "print_scroll new_fg obj buf0 p_max_size =
           Inr (seg @ [NUL], obj\<lparr>scroll_start := start\<rparr>)"
proof -
  have "fill_loop (evaluated buf0) start (scroll_show obj) 0 0 [] =
          Inr (Returned ([] @ seg @ [NUL]))"
    using assms(4-6) by (intro fill_loop_returned) simp_all
  then show ?thesis
    using assms(1-3) by (simp add: print_scroll_def scan_loop_evaluated strlen_evaluated)
qed

theorem terminator_in_window_returns_at_once_witness:
  "NUL \<in> set (''  abc'' @ [NUL]) \<and>
   scroll_show (field 2 1 4)
     < length (cstring (''  abc'' @ [NUL])) - markers (cstring (''  abc'' @ [NUL])) \<and>
   skip_loop (evaluated (''  abc'' @ [NUL])) (scroll_start (field 2 1 4)) = Inr 4 \<and>
   drop 4 (evaluated (''  abc'' @ [NUL])) = ''c'' @ NUL # [] \<and>
   NUL \<notin> set ''c'' \<and>
   printable ''c'' < scroll_show (field 2 1 4) \<and>
   print_scroll [SPECIAL_CHAR] (field 2 1 4) (''  abc'' @ [NUL]) 100 =
     Inr (''c'' @ [NUL], field 2 1 4)"
proof -
  have e: "evaluated (''  abc'' @ [NUL]) = ''  abc'' @ [NUL]"
    by (simp add: evaluated_def cstring_def separate_def NUL_def NEWLINE_def)
  have h1: "NUL \<in> set (''  abc'' @ [NUL])"
    by simp
  have h2: "scroll_show (field 2 1 4)
      < length (cstring (''  abc'' @ [NUL])) - markers (cstring (''  abc'' @ [NUL]))"
    by (simp add: field_def cstring_def markers_def NUL_def SPECIAL_CHAR_def)
  have h3: "skip_loop (evaluated (''  abc'' @ [NUL])) (scroll_start (field 2 1 4)) = Inr 4"
    unfolding e by (simp add: field_def skip_loop.simps SPECIAL_CHAR_def)
  have h4: "drop 4 (evaluated (''  abc'' @ [NUL])) = ''c'' @ NUL # []"
    unfolding e by simp
  have h5: "NUL \<notin> set ''c''"
    by (simp add: NUL_def)
  have h6: "printable ''c'' < scroll_show (field 2 1 4)"
    by (simp add: printable_def field_def SPECIAL_CHAR_def)
  have "print_scroll [SPECIAL_CHAR] (field 2 1 4) (''  abc'' @ [NUL]) 100 =
          Inr (''c'' @ [NUL], (field 2 1 4)\<lparr>scroll_start := 4\<rparr>)"
    by (rule terminator_in_window_returns_at_once [OF h1 h2 h3 h4 h5 h6])
  then show ?thesis
    using h1 h2 h3 h4 h5 h6 by (simp add: field_def)
qed

subsection \<open>The window that is filled\<close>

text \<open>
  What a call does when it gets past line 96, for a cursor inside the text. The
  window \<open>win\<close> is the shortest run of bytes from \<open>start\<close> with \<open>visible_width\<close>
  printable bytes (it ends with a printable byte); the slice is the markers in front
  of \<open>start\<close>, the window, the markers behind it and the bytes of \<^verbatim>\<open>new_fg\<close>; the
  markers in front and inside the window are never more than the text has. The
  padding loop adds nothing: the window loop ends with \<open>j = show + visibcolorchanges\<close>.
\<close>

lemma printable_pos: "xs \<noteq> [] \<Longrightarrow> last xs \<noteq> SPECIAL_CHAR \<Longrightarrow> 0 < printable xs"
proof -
  assume "xs \<noteq> []" and l: "last xs \<noteq> SPECIAL_CHAR"
  then have "last xs \<in> set xs"
    by simp
  with l have "filter (\<lambda>c. c \<noteq> SPECIAL_CHAR) xs \<noteq> []"
    by (auto simp: filter_empty_conv)
  then show ?thesis
    by (simp add: printable_def)
qed

lemma fill_loop_filled:
  "drop (start + j) buf = win @ rest \<Longrightarrow> NUL \<notin> set win \<Longrightarrow>
   printable win + j = shw + v \<Longrightarrow> win = [] \<or> last win \<noteq> SPECIAL_CHAR \<Longrightarrow>
   fill_loop buf start shw j v p = Inr (Filled (p @ win) (j + length win) (v + markers win))"
proof (induction win arbitrary: j v p)
  case Nil
  then show ?case
    by (subst fill_loop.simps) (simp add: printable_def markers_def)
next
  case (Cons c win)
  from Cons.prems(1) have d: "start + j < length buf" "buf ! (start + j) = c"
    "drop (start + (j + 1)) buf = win @ rest"
    using drop_eq_Cons [of "start + j" buf c "win @ rest"] by simp_all
  from Cons.prems(2) have c: "c \<noteq> NUL" "NUL \<notin> set win"
    by auto
  from Cons.prems(4) have l: "win = [] \<or> last win \<noteq> SPECIAL_CHAR"
    by (cases win) auto
  have "0 < printable (c # win)"
    using Cons.prems(4) by (intro printable_pos) simp_all
  with Cons.prems(3) have j: "j < shw + v"
    by simp
  have "fill_loop buf start shw (j + 1) (if c = SPECIAL_CHAR then v + 1 else v) (p @ [c])
        = Inr (Filled ((p @ [c]) @ win) (j + 1 + length win)
                 ((if c = SPECIAL_CHAR then v + 1 else v) + markers win))"
    using Cons.prems(3) by (intro Cons.IH d c l) (auto simp: printable_def)
  then show ?case
    using d c j by (subst fill_loop.simps) (simp add: markers_def)
qed

lemma markers_separate: "markers (map separate s) = markers s"
  by (induction s) (auto simp: markers_def separate_def)

lemma markers_append: "markers (xs @ ys) = markers xs + markers ys"
  by (simp add: markers_def)

lemma evaluated_split:
  "NUL \<in> set buf0 \<Longrightarrow>
   \<exists>junk. evaluated buf0 = map separate (cstring buf0) @ NUL # junk"
proof -
  assume "NUL \<in> set buf0"
  then have "dropWhile (\<lambda>c. c \<noteq> NUL) buf0 \<noteq> []"
    by simp
  then obtain x junk where x: "dropWhile (\<lambda>c. c \<noteq> NUL) buf0 = x # junk"
    by (cases "dropWhile (\<lambda>c. c \<noteq> NUL) buf0") auto
  then have "x = NUL"
    using hd_dropWhile [of "\<lambda>c. c \<noteq> NUL" buf0] by force
  with x show ?thesis
    by (simp add: evaluated_def)
qed

lemma window_inside_text:
  assumes E: "E = T @ NUL # junk" and d: "drop start E = win @ rest"
    and w: "NUL \<notin> set win" and s: "start \<le> length T"
  shows "take start E @ win = take (start + length win) T"
proof -
  have len: "start + length win \<le> length T"
  proof (rule ccontr)
    assume "\<not> start + length win \<le> length T"
    then have i: "length T - start < length win"
      using s by simp
    have "win ! (length T - start) = (win @ rest) ! (length T - start)"
      using i by (simp add: nth_append)
    also have "\<dots> = drop start E ! (length T - start)"
      using d by simp
    also have "\<dots> = E ! (start + (length T - start))"
      using s E by (intro nth_drop) simp
    also have "\<dots> = NUL"
      using s E by (simp add: nth_append)
    finally show False
      using w i by (metis nth_mem)
  qed
  have "take (start + length win) E = take start E @ take (length win) (drop start E)"
    by (simp add: take_add)
  also have "\<dots> = take start E @ win"
    using d by simp
  finally have "take start E @ win = take (start + length win) E"
    by simp
  also have "\<dots> = take (start + length win) T"
    using len E by simp
  finally show ?thesis .
qed

lemma markers_take_le: "markers (take n s) \<le> markers s"
proof -
  have "markers s = markers (take n s) + markers (drop n s)"
    using markers_append [of "take n s" "drop n s"] by simp
  then show ?thesis by simp
qed

lemma filled_window_slice:
  assumes nul: "NUL \<in> set buf0"
    and long: "scroll_show obj < length (cstring buf0) - markers (cstring buf0)"
    and skip: "skip_loop (evaluated buf0) (scroll_start obj) = Inr start"
    and win: "drop start (evaluated buf0) = win @ rest" "NUL \<notin> set win"
       "printable win = scroll_show obj" "win = [] \<or> last win \<noteq> SPECIAL_CHAR"
    and inside: "start \<le> length (cstring buf0)"
    and next_start: "start' = (start + scroll_step obj) mod 2 ^ 32" "start' < length buf0"
  shows "print_scroll new_fg obj buf0 p_max_size =
           Inr (replicate (markers (take start (evaluated buf0))) SPECIAL_CHAR @ win @
                replicate (markers (cstring buf0) - markers (take start (evaluated buf0))
                             - markers win) SPECIAL_CHAR @
                new_fg @ [NUL],
                obj\<lparr>scroll_start := (if evaluated buf0 ! start' = NUL then 0 else start')\<rparr>)"
    and "markers (take start (evaluated buf0)) + markers win \<le> markers (cstring buf0)"
proof -
  obtain junk where E: "evaluated buf0 = map separate (cstring buf0) @ NUL # junk"
    using evaluated_split [OF nul] by blast
  have "take start (evaluated buf0) @ win =
          take (start + length win) (map separate (cstring buf0))"
    using E win(1,2) inside by (intro window_inside_text) simp_all
  then have "markers (take start (evaluated buf0)) + markers win =
          markers (take (start + length win) (map separate (cstring buf0)))"
    using markers_append [of "take start (evaluated buf0)" win] by simp
  also have "\<dots> \<le> markers (map separate (cstring buf0))"
    by (rule markers_take_le)
  finally show le: "markers (take start (evaluated buf0)) + markers win \<le> markers (cstring buf0)"
    by (simp add: markers_separate)
  have fill: "fill_loop (evaluated buf0) start (scroll_show obj) 0 0 [] =
          Inr (Filled ([] @ win) (0 + length win) (0 + markers win))"
    using win by (intro fill_loop_filled) simp_all
  have len: "length win = scroll_show obj + markers win"
    using win(3) sum_length_filter_compl [of "\<lambda>c. c = SPECIAL_CHAR" win]
    by (simp add: printable_def markers_def)
  have lenE: "length (evaluated buf0) = length buf0"
    using E nul by (metis length_map evaluated_def length_append takeWhile_dropWhile_id cstring_def)
  show "print_scroll new_fg obj buf0 p_max_size =
           Inr (replicate (markers (take start (evaluated buf0))) SPECIAL_CHAR @ win @
                replicate (markers (cstring buf0) - markers (take start (evaluated buf0))
                             - markers win) SPECIAL_CHAR @
                new_fg @ [NUL],
                obj\<lparr>scroll_start := (if evaluated buf0 ! start' = NUL then 0 else start')\<rparr>)"
    using nul long skip fill len le next_start lenE
    by (simp add: print_scroll_def scan_loop_evaluated strlen_evaluated pad_loop_def
        count_front_def markers_def Let_def)
qed


subsection \<open>Runs on concrete texts\<close>

text \<open>
  The definitions a run of \<open>print_scroll\<close> or \<open>parse_scroll_arg\<close> on concrete
  bytes unfolds.
\<close>

lemmas run_defs =
  print_scroll_def field_def cstring_def strlen_def snprintf_s_def scan_loop.simps
  skip_loop.simps fill_loop.simps pad_loop_def count_front_def NUL_def NEWLINE_def
  SPECIAL_CHAR_def LINESEPARATOR_def SPACE_def

lemma render_calls_numeral:
  "render_calls (numeral n) new_fg obj buf0 m =
     (case print_scroll new_fg obj buf0 m of
        Inl e \<Rightarrow> Inl e
      | Inr (p, obj') \<Rightarrow> render_calls (pred_numeral n) new_fg obj' buf0 m)"
  by (simp add: numeral_eq_Suc)

lemma render_calls_one:
  "render_calls 1 new_fg obj buf0 m =
     (case print_scroll new_fg obj buf0 m of
        Inl e \<Rightarrow> Inl e
      | Inr (p, obj') \<Rightarrow> render_calls 0 new_fg obj' buf0 m)"
  unfolding One_nat_def by simp

lemma replicate_pad: "replicate (numeral k) x = x # replicate (pred_numeral k) x"
  by (simp add: numeral_eq_Suc)

lemmas parse_defs =
  parse_scroll_arg_def sscanf_u_n_def strtoul_value_def isspace_def isdigit_def decimal_def
  digit_value_def
  cstring_def NUL_def NEWLINE_def SPACE_def scroll_needs_arguments_def field_def
  replicate_pad

text \<open>
  The field \<^verbatim>\<open>${scroll 2 abc}\<close>: width 2, step 1, the text \<open>abc\<close> behind two
  spaces. Five calls in a row; the fifth leaves the field as it found it.
\<close>

lemma abc_calls:
  "print_scroll [] (field 2 1 0) (''  abc'' @ [NUL]) 100 = Inr (''  '' @ [NUL], field 2 1 1)"
  "print_scroll [] (field 2 1 1) (''  abc'' @ [NUL]) 100 = Inr ('' a'' @ [NUL], field 2 1 2)"
  "print_scroll [] (field 2 1 2) (''  abc'' @ [NUL]) 100 = Inr (''ab'' @ [NUL], field 2 1 3)"
  "print_scroll [] (field 2 1 3) (''  abc'' @ [NUL]) 100 = Inr (''bc'' @ [NUL], field 2 1 4)"
  "print_scroll [] (field 2 1 4) (''  abc'' @ [NUL]) 100 = Inr (''c'' @ [NUL], field 2 1 4)"
  by (simp_all add: run_defs)

lemma abc_stuck:
  "render_calls k [] (field 2 1 4) (''  abc'' @ [NUL]) 100 = Inr (''c'' @ [NUL], field 2 1 4)"
  by (induction k) (simp_all only: render_calls.simps abc_calls sum.case prod.case)

text \<open>The same field with a marker in front of \<open>abc\<close>.\<close>

lemma colour_calls:
  "print_scroll [] (field 2 1 0) (''  '' @ [SPECIAL_CHAR] @ ''abc'' @ [NUL]) 100 =
     Inr (''  '' @ [SPECIAL_CHAR] @ [NUL], field 2 1 1)"
  "print_scroll [] (field 2 1 1) (''  '' @ [SPECIAL_CHAR] @ ''abc'' @ [NUL]) 100 =
     Inr ('' '' @ [SPECIAL_CHAR] @ ''a'' @ [NUL], field 2 1 2)"
  "print_scroll [] (field 2 1 2) (''  '' @ [SPECIAL_CHAR] @ ''abc'' @ [NUL]) 100 =
     Inr ([SPECIAL_CHAR] @ ''ab'' @ [NUL], field 2 1 4)"
  "print_scroll [] (field 2 1 4) (''  '' @ [SPECIAL_CHAR] @ ''abc'' @ [NUL]) 100 =
     Inr ([SPECIAL_CHAR] @ ''bc'' @ [NUL], field 2 1 5)"
  "print_scroll [] (field 2 1 5) (''  '' @ [SPECIAL_CHAR] @ ''abc'' @ [NUL]) 100 =
     Inr (''c'' @ [NUL], field 2 1 5)"
  by (simp_all add: run_defs)

text \<open>
  The field \<^verbatim>\<open>${scroll 1 2 ab}\<close>: width 1, step 2, in an array that holds two
  more bytes behind the terminator, and in one that ends with the terminator.
\<close>

lemma step2_calls:
  "print_scroll [] (field 1 2 0) ('' ab'' @ [NUL] @ ''zz'') 100 = Inr ('' '' @ [NUL], field 1 2 2)"
  "print_scroll [] (field 1 2 2) ('' ab'' @ [NUL] @ ''zz'') 100 = Inr (''b'' @ [NUL], field 1 2 4)"
  "print_scroll [] (field 1 2 0) ('' ab'' @ [NUL]) 100 = Inr ('' '' @ [NUL], field 1 2 2)"
  "print_scroll [] (field 1 2 2) ('' ab'' @ [NUL]) 100 = Inl OutOfBounds"
  by (simp_all add: run_defs)

subsection \<open>The width of the slice (C1)\<close>

text \<open>
  C1 asks for exactly \<open>visible_width\<close> printable bytes, the window padded with
  spaces when the text ends inside it. The code diverges at the spec's own example:
  width 2, text \<open>abc\<close> (printable length 3, so the scrolling path), cursor 2. The
  slice is \<open>c\<close>, one printable byte, not \<open>c\<close> and a space: the \<^verbatim>\<open>return\<close>
  of line 95 leaves before the padding loop of lines 97 to 99.
\<close>

theorem window_not_padded_at_end_of_text:
  "scroll_show (field 2 1 2) < length (cstring (''abc'' @ [NUL])) - markers (cstring (''abc'' @ [NUL])) \<and>
   print_scroll [] (field 2 1 2) (''abc'' @ [NUL]) 100 = Inr (''c'' @ [NUL], field 2 1 2) \<and>
   printable ''c'' = 1 \<and>
   ''c'' @ [NUL] \<noteq> ''c '' @ [NUL]"
  by (simp add: run_defs markers_def printable_def)

subsection \<open>The markers of the slice (C2)\<close>

text \<open>
  C2 asks that every slice of the scrolling path carries all the markers of the
  text. The code diverges for width 2, step 1 and the text of two spaces, one marker
  and \<open>abc\<close>: the fifth call in a row returns at line 95 with the slice \<open>c\<close>, which
  holds none of the text's one marker (lines 101 to 116 are not reached).
\<close>

theorem markers_dropped_at_end_of_text:
  "render_calls 4 [] (field 2 1 0) (''  '' @ [SPECIAL_CHAR] @ ''abc'' @ [NUL]) 100 =
     Inr (''c'' @ [NUL], field 2 1 5) \<and>
   markers (cstring (''  '' @ [SPECIAL_CHAR] @ ''abc'' @ [NUL])) = 1 \<and>
   markers (cstring (''c'' @ [NUL])) = 0"
proof -
  have "render_calls 4 [] (field 2 1 0) (''  '' @ [SPECIAL_CHAR] @ ''abc'' @ [NUL]) 100 =
     Inr (''c'' @ [NUL], field 2 1 5)"
    by (simp only: render_calls_numeral render_calls.simps colour_calls sum.case prod.case
        pred_numeral_simps BitM.simps)
  then show ?thesis
    by (simp add: markers_def cstring_def NUL_def SPECIAL_CHAR_def)
qed

subsection \<open>The capacity of the output (C4)\<close>

text \<open>
  C4 asks that no call stores more than \<open>output_capacity\<close> bytes. The code diverges
  on the scrolling path: for the field \<^verbatim>\<open>${scroll 3 abcdef}\<close> and a capacity of
  2 bytes the first call stores three spaces and the terminator, 4 bytes. Only the
  \<^verbatim>\<open>snprintf\<close> of line 81 is bounded by \<^verbatim>\<open>p_max_size\<close>.
\<close>

theorem capacity_ignored_when_scrolling:
  "print_scroll [] (field 3 1 0) (''   abcdef'' @ [NUL]) 2 = Inr (''   '' @ [NUL], field 3 1 1) \<and>
   length (''   '' @ [NUL]) = 4"
  by (simp add: run_defs)

subsection \<open>The cursor after a call (C5)\<close>

text \<open>
  C5 asks that the cursor after a call is an offset inside the text, or 0, for every
  step. The code diverges for the field \<^verbatim>\<open>${scroll 1 2 ab}\<close> (width 1, step 2,
  text of length 3): the second call moves the cursor from 2 to 4, behind the
  terminator at offset 3, and line 121 compares whatever byte the array holds there.
  With \<open>zz\<close> behind the terminator the cursor stays 4; in an array that ends with
  the terminator the read is outside the array.
\<close>

theorem cursor_steps_over_terminator:
  "parse_scroll_arg 0 (Some ''1 2 ab'') = Inr ((field 1 2 0)\<lparr>scroll_text := '' ab''\<rparr>) \<and>
   render_calls 1 [] (field 1 2 0) ('' ab'' @ [NUL] @ ''zz'') 100 = Inr (''b'' @ [NUL], field 1 2 4) \<and>
   strlen ('' ab'' @ [NUL] @ ''zz'') = 3 \<and>
   render_calls 1 [] (field 1 2 0) ('' ab'' @ [NUL]) 100 = Inl OutOfBounds"
proof -
  have "render_calls 1 [] (field 1 2 0) ('' ab'' @ [NUL] @ ''zz'') 100 = Inr (''b'' @ [NUL], field 1 2 4)"
    by (simp only: render_calls_one render_calls.simps step2_calls sum.case prod.case)
  moreover have "render_calls 1 [] (field 1 2 0) ('' ab'' @ [NUL]) 100 = Inl OutOfBounds"
    by (simp only: render_calls_one render_calls.simps step2_calls sum.case prod.case)
  moreover have "parse_scroll_arg 0 (Some ''1 2 ab'') = Inr ((field 1 2 0)\<lparr>scroll_text := '' ab''\<rparr>)"
    by (simp add: parse_defs)
  moreover have "strlen ('' ab'' @ [NUL] @ ''zz'') = 3"
    by (simp add: strlen_def cstring_def NUL_def)
  ultimately show ?thesis
    by simp
qed

subsection \<open>The period of the slices (C9)\<close>

text \<open>
  C9 asks that the cursor is back at 0, and the first slice back, after at most
  \<open>\<lceil>L / s\<rceil>\<close> calls. The code diverges for the field \<^verbatim>\<open>${scroll 2 abc}\<close>
  (printable length 5, step 1): the first call returns two spaces; from the fifth
  call on every call returns at line 95 with the slice \<open>c\<close> and the cursor at 4,
  so the cursor never comes back to 0.
\<close>

theorem cursor_never_returns:
  "parse_scroll_arg 0 (Some ''2 abc'') = Inr ((field 2 1 0)\<lparr>scroll_text := ''  abc''\<rparr>) \<and>
   render_calls 0 [] (field 2 1 0) (''  abc'' @ [NUL]) 100 = Inr (''  '' @ [NUL], field 2 1 1) \<and>
   render_calls (k + 4) [] (field 2 1 0) (''  abc'' @ [NUL]) 100 = Inr (''c'' @ [NUL], field 2 1 4)"
proof -
  have "k + 4 = Suc (Suc (Suc (Suc k)))"
    by simp
  then have "render_calls (k + 4) [] (field 2 1 0) (''  abc'' @ [NUL]) 100 =
      Inr (''c'' @ [NUL], field 2 1 4)"
    by (simp only: render_calls.simps abc_calls abc_stuck sum.case prod.case)
  moreover have "render_calls 0 [] (field 2 1 0) (''  abc'' @ [NUL]) 100 =
      Inr (''  '' @ [NUL], field 2 1 1)"
    by (simp only: render_calls.simps abc_calls)
  moreover have "parse_scroll_arg 0 (Some ''2 abc'') = Inr ((field 2 1 0)\<lparr>scroll_text := ''  abc''\<rparr>)"
    by (simp add: parse_defs)
  ultimately show ?thesis
    by simp
qed

subsection \<open>The argument of configure (C6, C7, C8)\<close>

lemma isdigit_cases:
  "isdigit c \<Longrightarrow> \<not> isspace c \<and> c \<noteq> CHR ''-'' \<and> c \<noteq> CHR ''+'' \<and> c \<noteq> NUL"
  by (auto simp: isdigit_def isspace_def SPACE_def NEWLINE_def NUL_def)

lemma sscanf_u_n_None: "(sscanf_u_n a = None) = (\<not> numeric_prefix a)"
proof (cases "dropWhile isspace a")
  case Nil
  show ?thesis
    unfolding sscanf_u_n_def numeric_prefix_def Nil by simp
next
  case (Cons c cs)
  show ?thesis
  proof (cases "c = CHR ''-'' \<or> c = CHR ''+''")
    case True
    then show ?thesis
      using Cons by (cases cs) (auto simp: sscanf_u_n_def numeric_prefix_def takeWhile_eq_Nil_iff)
  next
    case False
    then show ?thesis
      using Cons by (auto simp: sscanf_u_n_def numeric_prefix_def takeWhile_eq_Nil_iff)
  qed
qed

lemma sscanf_u_n_Some: "sscanf_u_n a = Some r \<Longrightarrow> numeric_prefix a"
  using sscanf_u_n_None [of a] by auto

lemma sscanf_u_n_fails: "\<not> numeric_prefix a \<Longrightarrow> sscanf_u_n a = None"
  using sscanf_u_n_None [of a] by auto

lemma sscanf_u_n_digits:
  assumes "ds \<noteq> []" and "list_all isdigit ds" and "rest = [] \<or> \<not> isdigit (hd rest)"
  shows "sscanf_u_n (ds @ rest) =
           Some (strtoul_value False ds mod 2 ^ 32,
                 length ds + length (takeWhile isspace rest))"
proof -
  obtain d ds' where ds: "ds = d # ds'"
    using assms(1) by (cases ds) auto
  with assms(2) have d: "isdigit d"
    by simp
  have all: "\<forall>c\<in>set ds. isdigit c"
    using assms(2) by (simp add: list_all_iff)
  have sp: "dropWhile isspace (ds @ rest) = ds @ rest" "takeWhile isspace (ds @ rest) = []"
    using isdigit_cases [OF d] ds by simp_all
  have hd: "hd (ds @ rest) = d"
    using ds by simp
  have tk: "takeWhile isdigit (ds @ rest) = ds"
  proof (cases rest)
    case Nil
    then show ?thesis using all by simp
  next
    case (Cons r rs)
    with assms(3) have "\<not> isdigit r" by simp
    with all Cons show ?thesis by (simp add: takeWhile_append2)
  qed
  have dr: "dropWhile isdigit (ds @ rest) = rest"
  proof (cases rest)
    case Nil
    then show ?thesis using all by simp
  next
    case (Cons r rs)
    with assms(3) have "\<not> isdigit r" by simp
    with all Cons show ?thesis by (simp add: dropWhile_append2)
  qed
  show ?thesis
    unfolding sscanf_u_n_def sp hd Let_def
    using isdigit_cases [OF d] ds tk dr assms(1) by simp
qed

text \<open>
  Numbers out of range, as the GNU C library stores them: \<open>2\<^sup>3\<^sup>2 + 2\<close> is cut to
  its low 32 bits, \<open>2\<^sup>6\<^sup>4 + 2\<close> is stored as 4294967295, and so is \<open>-1\<close>.
\<close>

lemma sscanf_u_n_out_of_range:
  "sscanf_u_n ''4294967298 x'' = Some (2, 11)"
  "sscanf_u_n ''18446744073709551618 x'' = Some (4294967295, 21)"
  "sscanf_u_n ''-1 x'' = Some (4294967295, 3)"
  by (simp_all add: sscanf_u_n_def strtoul_value_def isspace_def isdigit_def decimal_def
      digit_value_def SPACE_def NEWLINE_def)

text \<open>
  C6, as the claim states it, fails: the first token of \<open>5abc def\<close> is \<open>5abc\<close>,
  not an integer, and configure accepts the argument, with width 5 and the text
  \<open>abc def\<close>. Nor is the error raised for the token \<open>-5\<close>: \<^verbatim>\<open>%u\<close> reads
  it as 4294967291, and the code goes on to build a text with that many spaces.
\<close>

theorem token_with_numeric_prefix_counterexample:
  "\<not> nonneg_integer_token (first_token ''5abc def'') \<and>
   parse_scroll_arg 0 (Some ''5abc def'') = Inr ((field 5 1 0)\<lparr>scroll_text := ''     abc def''\<rparr>) \<and>
   \<not> nonneg_integer_token (first_token ''-5 abc'') \<and>
   sscanf_u_n ''-5 abc'' = Some (4294967291, 3) \<and>
   parse_scroll_arg 0 (Some ''-5 abc'') \<noteq> Inl (CRIT_ERR scroll_needs_arguments)"
  by (simp add: parse_defs first_token_def nonneg_integer_token_def)

text \<open>
  C6 (amended): configure raises the fatal error ``scroll needs arguments: <length>
  [<step>] <text>'', and so builds no field, for every argument that is null or does
  not start, after optional white space and at most one sign, with a decimal digit
  (the empty argument is one of them), and for no other argument: what \<^verbatim>\<open>%u\<close>
  asks for is a numeric prefix, not a whole token that is a number.
\<close>

theorem configure_fails_without_numeric_prefix:
  "(parse_scroll_arg c arg = Inl (CRIT_ERR scroll_needs_arguments)) =
     (arg = None \<or> (\<exists>a. arg = Some a \<and> \<not> numeric_prefix a))"
  by (cases arg)
     (auto simp: parse_scroll_arg_def Let_def sscanf_u_n_None dest: sscanf_u_n_Some
      split: option.splits prod.splits if_splits)

theorem configure_fails_without_numeric_prefix_witness:
  "\<not> numeric_prefix ''abc'' \<and>
   parse_scroll_arg 0 (Some ''abc'') = Inl (CRIT_ERR scroll_needs_arguments) \<and>
   numeric_prefix ''5abc def'' \<and>
   parse_scroll_arg 0 (Some ''5abc def'') \<noteq> Inl (CRIT_ERR scroll_needs_arguments)"
proof -
  have np: "\<not> numeric_prefix ''abc''"
    by (simp add: numeric_prefix_def isspace_def isdigit_def SPACE_def NEWLINE_def)
  have p: "numeric_prefix ''5abc def''"
    by (simp add: numeric_prefix_def isspace_def isdigit_def SPACE_def NEWLINE_def)
  from np have "parse_scroll_arg 0 (Some ''abc'') = Inl (CRIT_ERR scroll_needs_arguments)"
    using configure_fails_without_numeric_prefix [of 0 "Some ''abc''"] by simp
  moreover from p
  have "parse_scroll_arg 0 (Some ''5abc def'') \<noteq> Inl (CRIT_ERR scroll_needs_arguments)"
    using configure_fails_without_numeric_prefix [of 0 "Some ''5abc def''"] by simp
  ultimately show ?thesis
    using np p by simp
qed

text \<open>
  C7, as the claim states it, fails: for the argument \<open>5 3\<close> the step is 1, not 3,
  and the literal text is \<open>3\<close>, not empty.
\<close>

theorem trailing_number_counterexample:
  "parse_scroll_arg 0 (Some ''5 3'') =
     Inr \<lparr>scroll_text = ''     3'', scroll_show = 5, scroll_step = 1, scroll_start = 0,
          scroll_resetcolor = 0\<rparr>"
  by (simp add: parse_defs)

text \<open>
  C7 (amended): for every argument of the form \<open><width> <n>\<close>, two runs of digits
  with white space between them and nothing behind \<open>n\<close>, where the number
  \<open>width\<close> is below \<open>2\<^sup>3\<^sup>1\<close>, configure does not take \<open>n\<close> as the step: the
  step is 1 and \<open>n\<close> is the literal text, behind \<open>visible_width\<close> spaces. (A
  width from \<open>2\<^sup>3\<^sup>1\<close> on is beyond what the counter of line 51 can count; the
  amended claim says nothing about it.)
\<close>

theorem trailing_number_is_the_text:
  assumes "w \<noteq> []" and "list_all isdigit w"
    and "ws \<noteq> []" and "list_all isspace ws"
    and "t \<noteq> []" and "list_all isdigit t"
    and "decimal w < 2 ^ 31"
  shows "parse_scroll_arg c (Some (w @ ws @ t)) =
           Inr \<lparr>scroll_text = replicate (decimal w) SPACE @ t,
                scroll_show = decimal w,
                scroll_step = 1,
                scroll_start = 0,
                scroll_resetcolor = c\<rparr>"
proof -
  obtain d t' where t: "t = d # t'"
    using assms(5) by (cases t) auto
  with assms(6) have d: "isdigit d"
    by simp
  have allsp: "\<forall>c\<in>set ws. isspace c"
    using assms(4) by (simp add: list_all_iff)
  have "ws @ t = [] \<or> \<not> isdigit (hd (ws @ t))"
    using assms(3) allsp isdigit_cases by (cases ws) auto
  then have one: "sscanf_u_n (w @ ws @ t) =
      Some (strtoul_value False w mod 2 ^ 32, length w + length (takeWhile isspace (ws @ t)))"
    by (rule sscanf_u_n_digits [OF assms(1,2)])
  have "takeWhile isspace (ws @ t) = ws"
    using allsp isdigit_cases [OF d] t by (simp add: takeWhile_append2)
  moreover have "strtoul_value False w mod 2 ^ 32 = decimal w"
    using assms(7) by (simp add: strtoul_value_def)
  ultimately have one': "sscanf_u_n (w @ ws @ t) = Some (decimal w, length w + length ws)"
    using one by simp
  have two: "sscanf_u_n t = Some (strtoul_value False t mod 2 ^ 32, length t)"
    using sscanf_u_n_digits [OF assms(5,6), of "[]"] by simp
  have "NUL \<notin> set t"
    using assms(6) isdigit_cases by (auto simp: list_all_iff)
  then have cs: "cstring t = t"
    by (auto simp: cstring_def takeWhile_eq_all_conv)
  show ?thesis
    using one' two cs assms(7) by (simp add: parse_scroll_arg_def)
qed

theorem trailing_number_is_the_text_witness:
  "''12'' \<noteq> [] \<and> list_all isdigit ''12'' \<and> ''  '' \<noteq> [] \<and> list_all isspace ''  '' \<and>
   ''7'' \<noteq> [] \<and> list_all isdigit ''7'' \<and> decimal ''12'' < 2 ^ 31 \<and>
   parse_scroll_arg 0 (Some (''12'' @ ''  '' @ ''7'')) =
     Inr \<lparr>scroll_text = replicate 12 SPACE @ ''7'', scroll_show = 12, scroll_step = 1,
          scroll_start = 0, scroll_resetcolor = 0\<rparr>"
proof -
  have h: "''12'' \<noteq> []" "list_all isdigit ''12''" "''  '' \<noteq> []" "list_all isspace ''  ''"
    "''7'' \<noteq> []" "list_all isdigit ''7''"
    by (simp_all add: isdigit_def isspace_def SPACE_def)
  have v: "decimal ''12'' = 12"
    by (simp add: decimal_def digit_value_def)
  then have b: "decimal ''12'' < 2 ^ 31"
    by simp
  show ?thesis
    using trailing_number_is_the_text [OF h b, of 0] h b v by simp
qed

text \<open>
  C8, as the claim states it, fails: configure accepts the argument \<open>0 abc\<close> and
  builds a field of width 0.
\<close>

theorem width_zero_counterexample:
  "parse_scroll_arg 0 (Some ''0 abc'') = Inr ((field 0 1 0)\<lparr>scroll_text := ''abc''\<rparr>) \<and>
   scroll_show ((field 0 1 0)\<lparr>scroll_text := ''abc''\<rparr>) = 0"
  by (simp add: parse_defs)

text \<open>
  C8 (amended): after every successful configure, \<open>visible_width\<close> is the value
  that \<^verbatim>\<open>%u\<close> has read at the start of the argument, a number from 0 to
  \<open>2\<^sup>3\<^sup>1 - 1\<close>: the width is not checked against 0, and it is at least 1 only when
  the number read is.
\<close>

theorem configure_width_is_scanned_value:
  "parse_scroll_arg c arg = Inr obj \<Longrightarrow>
   \<exists>a n1. arg = Some a \<and> sscanf_u_n a = Some (scroll_show obj, n1) \<and> scroll_show obj < 2 ^ 31"
  by (auto simp: parse_scroll_arg_def Let_def split: option.splits prod.splits if_splits)

theorem configure_width_is_scanned_value_witness:
  "parse_scroll_arg 0 (Some ''3 abc'') = Inr ((field 3 1 0)\<lparr>scroll_text := ''   abc''\<rparr>) \<and>
   (\<exists>n1. sscanf_u_n ''3 abc'' = Some (3, n1))"
proof -
  have p: "parse_scroll_arg 0 (Some ''3 abc'') = Inr ((field 3 1 0)\<lparr>scroll_text := ''   abc''\<rparr>)"
    by (simp add: parse_defs)
  from configure_width_is_scanned_value [OF p] p show ?thesis
    by (auto simp: field_def)
qed

end
